theory Spec2Isabelle
  imports
    Main
    "HOL-Library.Word"
    "HOL-Library.Signed_Division"
    "HOL-Library.Multiset"
begin

unbundle bit_operations_syntax

section \<open>LaBGen-P: the driver of the background estimator\<close>

text \<open>
  The development follows \<^verbatim>\<open>LaBGen-P.cpp\<close>, whose only function is \<^verbatim>\<open>main\<close>.
  The parsed command line (the \<^verbatim>\<open>variables_map\<close>) is a record of optional values,
  every \<^verbatim>\<open>throw runtime_error\<close> is a value of \<open>error\<close>, the \<^verbatim>\<open>int32_t\<close> parameters
  are 32-bit words read as two's complement, and the processing loop is a recursive
  function over an explicit loop state whose iterator is an index into the frame vector.
\<close>

subsection \<open>Errors\<close>

datatype error =
    MissingInput        \<comment> \<open>You must provide the path of the input sequence!\<close>
  | MissingOutput       \<comment> \<open>You must provide the path of the output folder!\<close>
  | MissingS            \<comment> \<open>You must provide the S parameter!\<close>
  | NonPositiveS        \<comment> \<open>The S parameter must be positive!\<close>
  | MissingN            \<comment> \<open>You must provide the N parameter!\<close>
  | NonPositiveN        \<comment> \<open>The N parameter must be positive!\<close>
  | CannotOpenSequence  \<comment> \<open>Cannot open the sequence.\<close>
  | NullDereference     \<comment> \<open>use of the null \<^verbatim>\<open>fdiff\<close> pointer\<close>
  | IteratorPastEnd     \<comment> \<open>the frame iterator is moved or read beyond \<^verbatim>\<open>frames.end()\<close>\<close>
  | DimensionMismatch   \<comment> \<open>a map or frame does not have one value per region\<close>
  | EmptyHistory        \<comment> \<open>aggregation of a region that holds no candidate\<close>

text \<open>The errors the specification groups as configuration errors.\<close>

fun is_configuration_error :: "error \<Rightarrow> bool" where
  "is_configuration_error MissingInput = True"
| "is_configuration_error MissingOutput = True"
| "is_configuration_error MissingS = True"
| "is_configuration_error NonPositiveS = True"
| "is_configuration_error MissingN = True"
| "is_configuration_error NonPositiveN = True"
| "is_configuration_error _ = False"

subsection \<open>Command line and parameters\<close>

type_synonym int32 = "32 word"

text \<open>
  The variables map after \<^verbatim>\<open>store\<close> and \<^verbatim>\<open>notify\<close>: an option that takes a value is
  \<open>None\<close> when \<^verbatim>\<open>varsMap.count\<close> is 0, a flag is a boolean.
\<close>

record options =
  opt_help :: bool
  opt_input :: "string option"
  opt_output :: "string option"
  opt_s_parameter :: "int32 option"
  opt_n_parameter :: "int32 option"
  opt_default :: bool
  opt_visualization :: bool

record parameters =
  sequence :: string
  output_folder :: string
  sParam :: int32
  nParam :: int32
  visualization :: bool

text \<open>
  ``Extract parameters and sanity check'': the checks in the order of the source.
  \<^verbatim>\<open>sParam\<close> and \<^verbatim>\<open>nParam\<close> start at 0, the default option sets them to 19 and 3, and
  the block that reads and checks the two options runs only when the default option
  is absent.
\<close>

definition read_s_n :: "options \<Rightarrow> error + int32 \<times> int32" where
  "read_s_n opts =
     (case opt_s_parameter opts of
        None \<Rightarrow> Inl MissingS
      | Some s \<Rightarrow>
          if s <s 1 then Inl NonPositiveS
          else (case opt_n_parameter opts of
                  None \<Rightarrow> Inl MissingN
                | Some n \<Rightarrow> if n <s 1 then Inl NonPositiveN else Inr (s, n)))"

definition extract_parameters :: "options \<Rightarrow> error + parameters" where
  "extract_parameters opts =
     (case opt_input opts of
        None \<Rightarrow> Inl MissingInput
      | Some inp \<Rightarrow>
          (case opt_output opts of
             None \<Rightarrow> Inl MissingOutput
           | Some outp \<Rightarrow>
               (let defaultSet = opt_default opts;
                    (s0, n0) = (if defaultSet then (19, 3) else (0, 0))
                in case (if \<not> defaultSet then read_s_n opts else Inr (s0, n0)) of
                     Inl e \<Rightarrow> Inl e
                   | Inr (s, n) \<Rightarrow>
                       Inr \<lparr>sequence = inp, output_folder = outp, sParam = s, nParam = n,
                            visualization = opt_visualization opts\<rparr>)))"

subsection \<open>Size of the kernel\<close>

text \<open>
  \<^verbatim>\<open>std::min(a, b)\<close> on \<^verbatim>\<open>int32_t\<close> returns \<open>b\<close> when \<open>b < a\<close> and \<open>a\<close> otherwise; the
  division of two \<^verbatim>\<open>int32_t\<close> truncates towards zero.
\<close>

definition min_i32 :: "int32 \<Rightarrow> int32 \<Rightarrow> int32" where
  "min_i32 a b = (if b <s a then b else a)"

definition div_i32 :: "int32 \<Rightarrow> int32 \<Rightarrow> int32" where
  "div_i32 a b = word_of_int (sint a sdiv sint b)"

text \<open>The argument of the \<^verbatim>\<open>CounterMotionProba\<close> constructor: \<^verbatim>\<open>(min(height, width) / nParam) | 1\<close>.\<close>

definition kernel_size :: "int32 \<Rightarrow> int32 \<Rightarrow> int32 \<Rightarrow> int32" where
  "kernel_size height width n = div_i32 (min_i32 height width) n OR 1"

text \<open>
  The formula as the specification words it: \<open>oddify\<close> rounds its argument \<^emph>\<open>down\<close> to
  the nearest value whose lowest bit is 1, and the window size is
  \<open>max(1, oddify(min(H, W) / N))\<close>.
\<close>

definition spec_oddify :: "int \<Rightarrow> int" where
  "spec_oddify x = (if odd x then x else x - 1)"

definition spec_kernel_size :: "int \<Rightarrow> int \<Rightarrow> int \<Rightarrow> int" where
  "spec_kernel_size h w n = max 1 (spec_oddify (min h w div n))"

subsection \<open>Frames, maps and the collaborators of the driver\<close>

text \<open>
  A frame is a \<^verbatim>\<open>CV_8UC3\<close> matrix: three bytes per pixel. The regions are pixel-level
  (``\<^verbatim>\<open>Utils::getROIs(height, width); // Pixel-level\<close>''), so a frame is the list of its
  values, one per region, and so is the background. The probability map is \<^verbatim>\<open>CV_32SC1\<close>.
\<close>

type_synonym pixel = "8 word \<times> 8 word \<times> 8 word"
type_synonym frame = "pixel list"
type_synonym image = "pixel list"
type_synonym probability_map = "int32 list"
type_synonym score_map = "int list"

record video =
  v_height :: int32
  v_width :: int32
  v_frames :: "frame list"

text \<open>
  \<^verbatim>\<open>main\<close> uses collaborators whose code is not in \<^verbatim>\<open>LaBGen-P.cpp\<close>; they are parameters of
  the model: the decoder (\<open>None\<close> when the sequence cannot be opened), the number of
  regions \<^verbatim>\<open>Utils::getROIs\<close> makes, the combination rule of \<^verbatim>\<open>FrameDifferenceC1L1\<close>, the
  window filter \<^verbatim>\<open>CounterMotionProba::compute\<close> for a kernel size, and the content the
  two maps have before they are first written (the matrices are allocated, not filled).
\<close>

record collaborators =
  decoder :: "string \<Rightarrow> video option"
  getROIs :: "int32 \<Rightarrow> int32 \<Rightarrow> nat"
  difference :: "frame \<Rightarrow> frame \<Rightarrow> probability_map"
  compute :: "int32 \<Rightarrow> probability_map \<Rightarrow> score_map"
  unfilled_probability :: probability_map
  unfilled_filtered :: score_map

text \<open>
  Modelled from the spec: \<^verbatim>\<open>FrameDifferenceC1L1::process\<close> (\<^verbatim>\<open>FrameDifferenceC1L1.h\<close> is
  not part of the sources). The object keeps the previous frame. The first frame it is
  given has no predecessor and produces no motion map (the map is left empty, \<open>None\<close>);
  every later frame produces the raw map of the difference with the previous frame
  given. The frame given becomes the previous frame.
\<close>

definition process :: "(frame \<Rightarrow> frame \<Rightarrow> probability_map) \<Rightarrow> frame option \<Rightarrow> frame
    \<Rightarrow> frame option \<times> probability_map option" where
  "process diff previous current =
     (case previous of
        None \<Rightarrow> (Some current, None)
      | Some p \<Rightarrow> (Some current, Some (diff p current)))"

subsection \<open>The history of patches\<close>

text \<open>
  Modelled from the spec: \<^verbatim>\<open>PatchesHistory\<close> (\<^verbatim>\<open>History.h\<close> is not part of the sources).
  A candidate is a (pixel value, motion score, insertion order) triple. The history of
  a region holds at most \<open>S\<close> candidates; \<open>clock\<close> counts the candidates offered to the
  region so far and stamps the insertion order.
\<close>

record candidate =
  cvalue :: pixel
  cscore :: int
  corder :: nat

record region_history =
  held :: "candidate list"
  clock :: nat

record patches_history =
  capacity :: nat
  regions :: "region_history list"

text \<open>
  Modelled from the spec: ``let \<open>worst\<close> be the held Candidate with the maximum score
  (ties broken by earliest insertion order)''. \<open>worse a b\<close> is the more expendable of
  two candidates; \<open>worst\<close> is \<open>None\<close> when nothing is held.
\<close>

definition worse :: "candidate \<Rightarrow> candidate \<Rightarrow> candidate" where
  "worse a b =
     (if cscore a < cscore b \<or> (cscore a = cscore b \<and> corder b < corder a) then b else a)"

fun worst :: "candidate list \<Rightarrow> candidate option" where
  "worst [] = None"
| "worst (c # cs) = Some (fold (\<lambda>b a. worse a b) cs c)"

text \<open>
  The order behind \<open>worst\<close>: \<open>expendable w c\<close> when \<open>w\<close> is to be evicted before \<open>c\<close>, or
  is \<open>c\<close>: it has the higher score, or the same score and is not younger.
\<close>

definition expendable :: "candidate \<Rightarrow> candidate \<Rightarrow> bool" where
  "expendable w c \<longleftrightarrow> cscore c < cscore w \<or> (cscore c = cscore w \<and> corder w \<le> corder c)"

text \<open>
  Modelled from the spec: \<open>insert(region, pixelValue, score)\<close>. ``If
  \<open>|History[region]| < S\<close>: add the new Candidate unconditionally. Else: [...] If
  \<open>score < worst.score\<close>, remove \<open>worst\<close> and add the new Candidate; otherwise discard
  the new Candidate (do not insert).''
\<close>

definition insert_region :: "nat \<Rightarrow> pixel \<Rightarrow> int \<Rightarrow> region_history \<Rightarrow> region_history" where
  "insert_region S v s h =
     (let new = \<lparr>cvalue = v, cscore = s, corder = clock h\<rparr>;
          h' = h\<lparr>clock := Suc (clock h)\<rparr>
      in if length (held h) < S then h'\<lparr>held := held h @ [new]\<rparr>
         else (case worst (held h) of
                 None \<Rightarrow> h'
               | Some w \<Rightarrow>
                   if s < cscore w then h'\<lparr>held := remove1 w (held h) @ [new]\<rparr> else h'))"

text \<open>
  Modelled from the spec: \<^verbatim>\<open>make_shared<PatchesHistory>(rois, sParam)\<close>, one empty history
  per region, and \<^verbatim>\<open>PatchesHistory::insert(scores, frame)\<close>: ``for every Region, call
  \<open>insert(region, currentFrame.valueAt(region), score)\<close>''; a map or a frame whose size
  is not that of the regions is a \<open>DimensionMismatch\<close>.
\<close>

definition make_history :: "nat \<Rightarrow> nat \<Rightarrow> patches_history" where
  "make_history rois S = \<lparr>capacity = S, regions = replicate rois \<lparr>held = [], clock = 0\<rparr>\<rparr>"

definition insert_history :: "score_map \<Rightarrow> frame \<Rightarrow> patches_history \<Rightarrow> error + patches_history" where
  "insert_history scores fr h =
     (if length scores \<noteq> length (regions h) \<or> length fr \<noteq> length (regions h)
      then Inl DimensionMismatch
      else Inr (h\<lparr>regions :=
                  map (\<lambda>(r, v, s). insert_region (capacity h) v s r)
                    (zip (regions h) (zip fr scores))\<rparr>))"

text \<open>
  A run of insertions: the maps and frames are inserted one after the other, and the
  first error ends the run.
\<close>

fun insert_all :: "(score_map \<times> frame) list \<Rightarrow> patches_history \<Rightarrow> error + patches_history" where
  "insert_all [] h = Inr h"
| "insert_all ((scores, fr) # rest) h =
     (case insert_history scores fr h of Inl e \<Rightarrow> Inl e | Inr h' \<Rightarrow> insert_all rest h')"

text \<open>
  Modelled from the spec: the aggregation, \<^verbatim>\<open>PatchesHistory::median\<close> in the driver.
  ``For each Region and each channel independently, compute the median of the channel
  values across all Candidates currently held''; ``for an even-sized candidate set:
  select the lower of the two middle values after sorting''; a region with zero held
  candidates is an \<open>EmptyHistory\<close> error.
\<close>

definition median :: "'a::linorder list \<Rightarrow> 'a" where
  "median xs = sort xs ! ((length xs - 1) div 2)"

definition median_pixel :: "pixel list \<Rightarrow> pixel" where
  "median_pixel vs =
     (median (map (\<lambda>(b, g, r). b) vs),
      median (map (\<lambda>(b, g, r). g) vs),
      median (map (\<lambda>(b, g, r). r) vs))"

definition median_history :: "patches_history \<Rightarrow> error + image" where
  "median_history h =
     (if list_ex (\<lambda>r. held r = []) (regions h) then Inl EmptyHistory
      else Inr (map (\<lambda>r. median_pixel (map cvalue (held r))) (regions h)))"

subsection \<open>The processing loop\<close>

text \<open>What \<^verbatim>\<open>imshow\<close> is given, in the order of the calls.\<close>

datatype window =
    InputVideo frame
  | ProbabilityMap probability_map
  | FilteredProbabilityMap score_map
  | EstimatedBackground image

text \<open>
  The variables the loop reads and writes. \<open>it\<close> is the iterator, as the index of the
  frame it points to (\<open>length frames\<close> is \<^verbatim>\<open>frames.end()\<close>). \<open>fdiff\<close> is the shared pointer:
  \<open>None\<close> is the null pointer, \<open>Some p\<close> an object whose previous frame is \<open>p\<close>.
  \<open>probabilityMap\<close> is \<open>None\<close> when the matrix is empty. \<open>background\<close> is \<open>None\<close> as long
  as the matrix is allocated and not yet written.
\<close>

record loop_state =
  it :: nat
  firstFrame :: bool
  numFrame :: int32
  fdiff :: "frame option option"
  probabilityMap :: "probability_map option"
  filteredProbabilityMap :: score_map
  history :: patches_history
  background :: "image option"
  shown :: "window list"

text \<open>
  ``Algorithm instantiation'' and ``Background subtraction'' on the frame \<open>f = *it\<close>.
\<close>

definition background_subtraction :: "collaborators \<Rightarrow> frame \<Rightarrow> loop_state \<Rightarrow> error + loop_state" where
  "background_subtraction env f st =
     (let st1 = (if firstFrame st then st\<lparr>fdiff := Some None\<rparr> else st)
      in case fdiff st1 of
           None \<Rightarrow> Inl NullDereference
         | Some previous \<Rightarrow>
             (let (previous', pm) = process (difference env) previous f
              in Inr (st1\<lparr>fdiff := Some previous', probabilityMap := pm\<rparr>)))"

text \<open>``Visualization of the input frame and its probability map.''\<close>

definition show_input :: "bool \<Rightarrow> frame \<Rightarrow> loop_state \<Rightarrow> loop_state" where
  "show_input vis f st =
     (if vis
      then st\<lparr>shown := shown st @ [InputVideo f] @
                 (case probabilityMap st of None \<Rightarrow> [] | Some m \<Rightarrow> [ProbabilityMap m])\<rparr>
      else st)"

text \<open>``Filtering probability map.''\<close>

definition filtering :: "collaborators \<Rightarrow> int32 \<Rightarrow> bool \<Rightarrow> loop_state \<Rightarrow> loop_state" where
  "filtering env k vis st =
     (case probabilityMap st of
        None \<Rightarrow> st
      | Some m \<Rightarrow>
          (let st1 = st\<lparr>filteredProbabilityMap := compute env k m\<rparr>
           in if vis
              then st1\<lparr>shown := shown st1 @ [FilteredProbabilityMap (filteredProbabilityMap st1)]\<rparr>
              else st1))"

text \<open>
  ``Insert the current frame and its probability map into the history'', and the
  estimate of the background that is shown when the visualization is on.
\<close>

definition insert_and_preview :: "bool \<Rightarrow> frame \<Rightarrow> loop_state \<Rightarrow> error + loop_state" where
  "insert_and_preview vis f st =
     (case insert_history (filteredProbabilityMap st) f (history st) of
        Inl e \<Rightarrow> Inl e
      | Inr h \<Rightarrow>
          (let st1 = st\<lparr>history := h\<rparr>
           in if vis
              then (case median_history (history st1) of
                      Inl e \<Rightarrow> Inl e
                    | Inr bg \<Rightarrow>
                        Inr (st1\<lparr>background := Some bg,
                                 shown := shown st1 @ [EstimatedBackground bg]\<rparr>))
              else Inr st1))"

text \<open>
  The body of the loop at a frame \<open>f = *it\<close>. In the branch of the first frame the
  body itself advances the iterator (\<^verbatim>\<open>++it\<close>) before \<^verbatim>\<open>continue\<close>.
\<close>

definition body :: "collaborators \<Rightarrow> int32 \<Rightarrow> bool \<Rightarrow> frame \<Rightarrow> loop_state \<Rightarrow> error + loop_state" where
  "body env k vis f st =
     (case background_subtraction env f (st\<lparr>numFrame := numFrame st + 1\<rparr>) of
        Inl e \<Rightarrow> Inl e
      | Inr st1 \<Rightarrow>
          (let st2 = show_input vis f st1
           in if firstFrame st2
              then Inr (st2\<lparr>it := Suc (it st2), firstFrame := False\<rparr>)
              else insert_and_preview vis f (filtering env k vis st2)))"

text \<open>
  \<^verbatim>\<open>for (it = frames.begin(), end = frames.end(); it != end; ++it)\<close>. The loop ends when
  the iterator is \<^verbatim>\<open>end\<close>. An iterator can be advanced up to \<^verbatim>\<open>end\<close> and read below it:
  advancing it at \<^verbatim>\<open>end\<close>, and reading it beyond, is the error \<open>IteratorPastEnd\<close>.
\<close>

function loop :: "collaborators \<Rightarrow> int32 \<Rightarrow> bool \<Rightarrow> frame list \<Rightarrow> loop_state \<Rightarrow> error + loop_state" where
  "loop env k vis frames st =
     (if it st = length frames then Inr st
      else if length frames < it st then Inl IteratorPastEnd
      else (case body env k vis (frames ! it st) st of
              Inl e \<Rightarrow> Inl e
            | Inr st' \<Rightarrow>
                if it st' < length frames
                then loop env k vis frames (st'\<lparr>it := Suc (it st')\<rparr>)
                else Inl IteratorPastEnd))"
  by pat_completeness auto
termination
  by (relation "measure (\<lambda>(env, k, vis, frames, st). length frames - it st)")
    (auto simp: body_def background_subtraction_def show_input_def filtering_def
      insert_and_preview_def Let_def
      split: sum.splits option.splits prod.splits if_splits)

declare loop.simps [simp del]

subsection \<open>The program\<close>

text \<open>
  What a run that does not fail leaves: the help message, or the background written to
  the output file together with what the windows have shown.
\<close>

datatype outcome = HelpMessage | Written image "window list"

text \<open>``Processing'': the initialisations, the loop, and the final background.\<close>

definition initial_state :: "collaborators \<Rightarrow> parameters \<Rightarrow> video \<Rightarrow> loop_state" where
  "initial_state env p v =
     \<lparr>it = 0, firstFrame = True, numFrame = - 1, fdiff = None,
      probabilityMap = Some (unfilled_probability env),
      filteredProbabilityMap = unfilled_filtered env,
      history = make_history (getROIs env (v_height v) (v_width v)) (nat (sint (sParam p))),
      background = None, shown = []\<rparr>"

definition processing :: "collaborators \<Rightarrow> parameters \<Rightarrow> video \<Rightarrow> error + outcome" where
  "processing env p v =
     (case loop env (kernel_size (v_height v) (v_width v) (nParam p)) (visualization p)
             (v_frames v) (initial_state env p v) of
        Inl e \<Rightarrow> Inl e
      | Inr st \<Rightarrow>
          (case median_history (history st) of
             Inl e \<Rightarrow> Inl e
           | Inr bg \<Rightarrow> Inr (Written bg (shown st))))"

definition main :: "collaborators \<Rightarrow> options \<Rightarrow> error + outcome" where
  "main env opts =
     (if opt_help opts then Inr HelpMessage
      else (case extract_parameters opts of
              Inl e \<Rightarrow> Inl e
            | Inr p \<Rightarrow>
                (case decoder env (sequence p) of
                   None \<Rightarrow> Inl CannotOpenSequence
                 | Some v \<Rightarrow> processing env p v)))"

text \<open>The background a run writes, without what the windows have shown.\<close>

fun written :: "error + outcome \<Rightarrow> error + image option" where
  "written (Inl e) = Inl e"
| "written (Inr HelpMessage) = Inr None"
| "written (Inr (Written bg ws)) = Inr (Some bg)"

text \<open>
  The part of the loop state that the visualization does not write: the state without
  the background matrix and without what the windows have shown.
\<close>

definition erase :: "loop_state \<Rightarrow> loop_state" where
  "erase st = st\<lparr>background := None, shown := []\<rparr>"

subsection \<open>Inputs of the examples\<close>

text \<open>
  A sequence of one-pixel frames: the decoder delivers \<open>fs\<close>, there is one region,
  the raw map is the difference of the first channel and the filter leaves it as it is.
\<close>

definition one_pixel :: "frame list \<Rightarrow> collaborators" where
  "one_pixel fs =
     \<lparr>decoder = (\<lambda>path. Some \<lparr>v_height = 1, v_width = 1, v_frames = fs\<rparr>),
      getROIs = (\<lambda>h w. 1),
      difference = (\<lambda>p c. map2 (\<lambda>(a, _, _) (b, _, _). ucast (a - b)) p c),
      compute = (\<lambda>k m. map sint m),
      unfilled_probability = [0],
      unfilled_filtered = [0]\<rparr>"

definition command_line :: "int32 option \<Rightarrow> int32 option \<Rightarrow> bool \<Rightarrow> bool \<Rightarrow> options" where
  "command_line s n d v =
     \<lparr>opt_help = False, opt_input = Some ''in.avi'', opt_output = Some ''out'',
      opt_s_parameter = s, opt_n_parameter = n, opt_default = d, opt_visualization = v\<rparr>"

definition help_only :: options where
  "help_only =
     \<lparr>opt_help = True, opt_input = None, opt_output = None,
      opt_s_parameter = None, opt_n_parameter = None, opt_default = False,
      opt_visualization = False\<rparr>"

text \<open>A region that holds the values 10 and 20 in every channel.\<close>

definition ten_twenty :: patches_history where
  "ten_twenty =
     \<lparr>capacity = 2,
      regions = [\<lparr>held = [\<lparr>cvalue = (10, 10, 10), cscore = 0, corder = 0\<rparr>,
                          \<lparr>cvalue = (20, 20, 20), cscore = 0, corder = 1\<rparr>],
                  clock = 2\<rparr>]\<rparr>"

text \<open>
  The scores 5, 1, 1 offered to the one region of a history of capacity 3; a fourth
  candidate of score 1 is offered next.
\<close>

definition single_outlier :: "(score_map \<times> frame) list" where
  "single_outlier =
     [([5], [(50, 50, 50)]), ([1], [(10, 10, 10)]), ([1], [(11, 11, 11)])]"

section \<open>Properties\<close>

subsection \<open>The size of the kernel\<close>

lemma sint_min_i32: "sint (min_i32 a b) = min (sint a) (sint b)"
  by (auto simp: min_i32_def word_sless_alt)

lemma sint_div_i32:
  assumes "0 < sint a" and "0 < sint b"
  shows "sint (div_i32 a b) = sint a div sint b"
proof -
  have "sint a < 2 ^ 31"
    using sint_less [of a] by simp
  moreover have "sint a div sint b \<le> sint a"
    using assms zdiv_mono2 [of "sint a" 1 "sint b"] by simp
  moreover have "0 \<le> sint a div sint b"
    using assms by (simp add: pos_imp_zdiv_nonneg_iff)
  ultimately have range: "0 \<le> sint a div sint b" "sint a div sint b < 2 ^ 31"
    by simp_all
  have "sint a sdiv sint b = sint a div sint b"
    using assms by (simp add: signed_divide_int_def sgn_if)
  then have "sint (div_i32 a b) = signed_take_bit 31 (sint a div sint b)"
    by (simp add: div_i32_def sint_sbintrunc')
  also have "\<dots> = sint a div sint b"
    using range by (simp add: signed_take_bit_int_eq_self)
  finally show ?thesis .
qed

lemma sint_kernel_size:
  assumes "1 \<le>s height" and "1 \<le>s width" and "1 \<le>s n"
  shows "sint (kernel_size height width n) = (min (sint height) (sint width) div sint n) OR 1"
    and "0 \<le> min (sint height) (sint width) div sint n"
proof -
  have pos: "0 < sint height" "0 < sint width" "0 < sint n"
    using assms by (simp_all add: word_sle_eq)
  then have "0 < sint (min_i32 height width)"
    by (simp add: sint_min_i32)
  then have "sint (div_i32 (min_i32 height width) n) = min (sint height) (sint width) div sint n"
    using pos by (simp add: sint_div_i32 sint_min_i32)
  then show "sint (kernel_size height width n) = (min (sint height) (sint width) div sint n) OR 1"
    by (simp add: kernel_size_def signed_or_eq)
  show "0 \<le> min (sint height) (sint width) div sint n"
    using pos by (simp add: pos_imp_zdiv_nonneg_iff)
qed

text \<open>
  C3, as the specification states it: the window size is \<open>max(1, oddify(min(H, W) / N))\<close>
  with \<open>oddify\<close> rounding down. It fails for a frame of 4 by 4 pixels and \<open>N = 1\<close>: the
  quotient is 4, the program uses a kernel of 5, the formula gives 3.
\<close>

theorem kernel_size_rounds_up_counterexample:
  "sint (kernel_size 4 4 1) = 5 \<and> spec_kernel_size 4 4 1 = 3"
  by (simp add: kernel_size_def div_i32_def min_i32_def spec_kernel_size_def spec_oddify_def)

text \<open>
  C3, amended: for every height, width and \<open>N\<close> of at least 1, the window size is the
  quotient \<open>min(H, W) / N\<close> with its lowest bit set: the quotient itself when it is odd,
  the quotient plus one when it is even.
\<close>

theorem kernel_size_sets_lowest_bit:
  assumes "1 \<le>s height" and "1 \<le>s width" and "1 \<le>s n"
  shows "sint (kernel_size height width n) =
           (let q = min (sint height) (sint width) div sint n in if odd q then q else q + 1)"
  using sint_kernel_size(1) [OF assms] by (simp add: or_one_eq Let_def)

theorem kernel_size_sets_lowest_bit_witness:
  "1 \<le>s (480::int32) \<and> 1 \<le>s (640::int32) \<and> 1 \<le>s (3::int32) \<and> sint (kernel_size 480 640 3) = 161"
proof -
  have h: "1 \<le>s (480::int32)" "1 \<le>s (640::int32)" "1 \<le>s (3::int32)"
    by (simp_all add: word_sle_eq)
  show ?thesis
    using h kernel_size_sets_lowest_bit [OF h] by simp
qed

text \<open>
  C7: for every height, width and \<open>N\<close> of at least 1, the size of the kernel is odd and
  at least 1.
\<close>

theorem kernel_size_odd_positive:
  assumes "1 \<le>s height" and "1 \<le>s width" and "1 \<le>s n"
  shows "odd (sint (kernel_size height width n)) \<and> 1 \<le> sint (kernel_size height width n)"
proof -
  let ?q = "min (sint height) (sint width) div sint n"
  have k: "sint (kernel_size height width n) = ?q + of_bool (even ?q)"
    using sint_kernel_size(1) [OF assms] by (simp add: or_one_eq)
  have nonneg: "0 \<le> ?q"
    by (rule sint_kernel_size(2) [OF assms])
  have "1 \<le> ?q + of_bool (even ?q)"
  proof (cases "even ?q")
    case True
    with nonneg show ?thesis by simp
  next
    case False
    then have "?q \<noteq> 0"
      by (metis even_zero)
    with nonneg False show ?thesis by simp
  qed
  moreover have "odd (?q + of_bool (even ?q))"
    by simp
  ultimately show ?thesis
    unfolding k by blast
qed

theorem kernel_size_odd_positive_witness:
  "1 \<le>s (2::int32) \<and> 1 \<le>s (2::int32) \<and> 1 \<le>s (5::int32) \<and>
   odd (sint (kernel_size 2 2 5)) \<and> 1 \<le> sint (kernel_size 2 2 5)"
proof -
  have h: "1 \<le>s (2::int32)" "1 \<le>s (5::int32)"
    by (simp_all add: word_sle_eq)
  show ?thesis
    using h kernel_size_odd_positive [OF h(1) h(1) h(2)] by simp
qed

subsection \<open>The parameters\<close>

text \<open>
  C6, as the specification states it: an S or N below 1, or a missing required parameter,
  always ends the run with a configuration error. It fails for the command line
  \<^verbatim>\<open>-i in.avi -o out -d -s 0\<close>, which runs to the end and writes a background, and for
  \<^verbatim>\<open>-h\<close> alone, which prints the help message and succeeds.
\<close>

theorem unchecked_parameters_counterexample:
  "main (one_pixel [[(1, 1, 1)], [(2, 2, 2)], [(3, 3, 3)]]) (command_line (Some 0) None True False)
     = Inr (Written [(3, 3, 3)] []) \<and>
   main (one_pixel [[(1, 1, 1)], [(2, 2, 2)], [(3, 3, 3)]]) help_only = Inr HelpMessage"
  by code_simp

text \<open>
  C6, amended: when the help option is absent, the run fails with a configuration error,
  whatever the decoder and the frames are, if the input or the output path is missing,
  or if the default option is absent and the S or the N parameter is missing or below 1.
\<close>

theorem configuration_errors:
  assumes "\<not> opt_help opts"
    and "opt_input opts = None \<or> opt_output opts = None \<or>
         (\<not> opt_default opts \<and>
            ((case opt_s_parameter opts of None \<Rightarrow> True | Some s \<Rightarrow> s <s 1) \<or>
             (case opt_n_parameter opts of None \<Rightarrow> True | Some n \<Rightarrow> n <s 1)))"
  shows "\<exists>e. is_configuration_error e \<and> (\<forall>env. main env opts = Inl e)"
proof -
  have "\<exists>e. is_configuration_error e \<and> extract_parameters opts = Inl e"
    using assms(2)
    by (auto simp: extract_parameters_def read_s_n_def split: option.splits)
  then show ?thesis
    using assms(1) by (auto simp: main_def)
qed

theorem configuration_errors_witness:
  "\<exists>e. is_configuration_error e \<and>
     (\<forall>env. main env (command_line (Some 0) (Some 3) False False) = Inl e)"
  using configuration_errors [of "command_line (Some 0) (Some 3) False False"]
  by (simp add: command_line_def word_sless_alt)



subsection \<open>The iterator of the processing loop\<close>

lemma loop_end: "it st = length frames \<Longrightarrow> loop env k vis frames st = Inr st"
  by (subst loop.simps) simp

lemma loop_step:
  "it st < length frames \<Longrightarrow>
   loop env k vis frames st =
     (case body env k vis (frames ! it st) st of
        Inl e \<Rightarrow> Inl e
      | Inr st' \<Rightarrow>
          if it st' < length frames
          then loop env k vis frames (st'\<lparr>it := Suc (it st')\<rparr>)
          else Inl IteratorPastEnd)"
  by (subst loop.simps) simp

lemma body_first_frame:
  "firstFrame st \<Longrightarrow>
   body env k vis f st =
     Inr (show_input vis f
            (st\<lparr>numFrame := numFrame st + 1, fdiff := Some (Some f), probabilityMap := None\<rparr>)
          \<lparr>it := Suc (it st), firstFrame := False\<rparr>)"
  by (simp add: body_def background_subtraction_def process_def show_input_def)

lemma body_later_frame:
  "\<not> firstFrame st \<Longrightarrow> fdiff st = Some (Some prev) \<Longrightarrow>
   body env k vis f st =
     insert_and_preview vis f (filtering env k vis (show_input vis f
       (st\<lparr>numFrame := numFrame st + 1, fdiff := Some (Some f),
           probabilityMap := Some (difference env prev f)\<rparr>)))"
  by (simp add: body_def background_subtraction_def process_def show_input_def)

lemma loop_first_frame:
  assumes "it st = 0" and "firstFrame st" and "frames \<noteq> []"
  shows "loop env k vis frames st =
     (if Suc 0 < length frames
      then loop env k vis frames
             (show_input vis (frames ! 0)
                (st\<lparr>numFrame := numFrame st + 1, fdiff := Some (Some (frames ! 0)),
                    probabilityMap := None\<rparr>)
              \<lparr>firstFrame := False, it := Suc (Suc 0)\<rparr>)
      else Inl IteratorPastEnd)"
  using assms by (simp add: loop_step body_first_frame show_input_def)

text \<open>
  C9 states that the loop never moves the iterator past the end of the frame vector,
  also for a sequence of exactly one frame. For one frame the body moves the iterator
  to \<^verbatim>\<open>end\<close> (\<^verbatim>\<open>++it\<close> in the branch of the first frame), and the header of the loop then
  advances it again: the loop of the program ends in \<open>IteratorPastEnd\<close>.
\<close>

theorem single_frame_iterator_past_end:
  "loop env k vis [f] (initial_state env p v) = Inl IteratorPastEnd"
  by (simp add: loop_first_frame initial_state_def)

text \<open>
  C2 states that every frame after the first is inserted. For three frames the second
  one is stepped over by the same double advance: it is given neither to the frame
  difference nor to the history, and the third frame is compared with the first. The
  history after the loop is the one insertion of the third frame.
\<close>

theorem second_frame_never_inserted:
  "map_sum id history (loop env k False [f0, f1, f2] (initial_state env p v)) =
     insert_history (compute env k (difference env f0 f2)) f2
       (make_history (getROIs env (v_height v) (v_width v)) (nat (sint (sParam p))))"
proof (cases "insert_history (compute env k (difference env f0 f2)) f2
       (make_history (getROIs env (v_height v) (v_width v)) (nat (sint (sParam p))))")
  case (Inl e)
  then show ?thesis
    by (simp add: loop_first_frame initial_state_def loop_step body_later_frame show_input_def
        filtering_def insert_and_preview_def)
next
  case (Inr h)
  then show ?thesis
    by (simp add: loop_first_frame initial_state_def loop_step body_later_frame show_input_def
        filtering_def insert_and_preview_def loop_end)
qed

theorem second_frame_never_inserted_witness:
  "map_sum id history
     (loop (one_pixel []) 1 False [[(1, 1, 1)], [(2, 2, 2)], [(3, 3, 3)]]
        (initial_state (one_pixel [])
           \<lparr>sequence = ''in.avi'', output_folder = ''out'', sParam = 2, nParam = 1,
             visualization = False\<rparr>
           \<lparr>v_height = 1, v_width = 1, v_frames = []\<rparr>)) =
   Inr \<lparr>capacity = 2,
        regions = [\<lparr>held = [\<lparr>cvalue = (3, 3, 3), cscore = 254, corder = 0\<rparr>], clock = 1\<rparr>]\<rparr>"
  using second_frame_never_inserted [of "one_pixel []" 1 "[(1, 1, 1)]" "[(2, 2, 2)]" "[(3, 3, 3)]"
      "\<lparr>sequence = ''in.avi'', output_folder = ''out'', sParam = 2, nParam = 1,
        visualization = False\<rparr>"
      "\<lparr>v_height = 1, v_width = 1, v_frames = []\<rparr>"]
  by (simp add: one_pixel_def make_history_def insert_history_def insert_region_def)

subsection \<open>Aggregation\<close>

lemma length_filter_sort: "length (filter P (sort xs)) = length (filter P xs)"
proof -
  have "mset (filter P (sort xs)) = mset (filter P xs)"
    by (simp only: mset_filter mset_sort)
  then show ?thesis
    by (metis size_mset)
qed

lemma median_index: "xs \<noteq> [] \<Longrightarrow> (length xs - 1) div 2 < length (sort xs)"
  by (cases xs) auto

lemma median_in_set: "xs \<noteq> [] \<Longrightarrow> median xs \<in> set xs"
  using median_index [of xs] nth_mem [of "(length xs - 1) div 2" "sort xs"]
  by (simp add: median_def del: length_sort)

lemma median_even:
  assumes "length xs = 2 * k" and "0 < k"
  shows "median xs = sort xs ! (k - 1)" and "sort xs ! (k - 1) \<le> sort xs ! k"
proof -
  have "(2 * k - 1) div 2 = k - 1"
    using assms(2) by (cases k) auto
  then show "median xs = sort xs ! (k - 1)"
    by (simp add: median_def assms(1))
  show "sort xs ! (k - 1) \<le> sort xs ! k"
    using assms by (intro sorted_nth_mono) simp_all
qed

lemma median_odd: "length xs = 2 * k + 1 \<Longrightarrow> median xs = sort xs ! k"
  by (simp add: median_def)

lemma length_filter_take_le: "length (filter P (take n ys)) \<le> length (filter P ys)"
proof -
  have "length (filter P ys) = length (filter P (take n ys)) + length (filter P (drop n ys))"
    by (metis append_take_drop_id filter_append length_append)
  then show ?thesis by simp
qed

lemma length_filter_drop_le: "length (filter P (drop n ys)) \<le> length (filter P ys)"
proof -
  have "length (filter P ys) = length (filter P (take n ys)) + length (filter P (drop n ys))"
    by (metis append_take_drop_id filter_append length_append)
  then show ?thesis by simp
qed

lemma median_half_below:
  assumes "xs \<noteq> []"
  shows "length xs \<le> 2 * length (filter (\<lambda>x. x \<le> median xs) xs)"
proof -
  let ?ys = "sort xs" and ?i = "(length xs - 1) div 2"
  have i: "?i < length ?ys"
    by (rule median_index [OF assms])
  have "\<forall>y \<in> set (take (Suc ?i) ?ys). y \<le> ?ys ! ?i"
  proof
    fix y assume "y \<in> set (take (Suc ?i) ?ys)"
    then obtain j where "j < Suc ?i" "j < length ?ys" "y = ?ys ! j"
      by (auto simp: in_set_conv_nth simp del: length_sort)
    then show "y \<le> ?ys ! ?i"
      using i by (auto intro!: sorted_nth_mono simp del: length_sort)
  qed
  then have "filter (\<lambda>x. x \<le> median xs) (take (Suc ?i) ?ys) = take (Suc ?i) ?ys"
    by (simp add: median_def)
  then have "length (filter (\<lambda>x. x \<le> median xs) (take (Suc ?i) ?ys)) = Suc ?i"
    using i by simp
  then have "Suc ?i \<le> length (filter (\<lambda>x. x \<le> median xs) ?ys)"
    using length_filter_take_le [of "\<lambda>x. x \<le> median xs" "Suc ?i" ?ys] by simp
  then have "Suc ?i \<le> length (filter (\<lambda>x. x \<le> median xs) xs)"
    by (simp only: length_filter_sort)
  moreover have "length xs \<le> 2 * Suc ?i"
    by simp
  ultimately show ?thesis by linarith
qed

lemma median_half_above:
  assumes "xs \<noteq> []"
  shows "length xs \<le> 2 * length (filter (\<lambda>x. median xs \<le> x) xs)"
proof -
  let ?ys = "sort xs" and ?i = "(length xs - 1) div 2"
  have i: "?i < length ?ys"
    by (rule median_index [OF assms])
  have "\<forall>y \<in> set (drop ?i ?ys). ?ys ! ?i \<le> y"
  proof
    fix y assume "y \<in> set (drop ?i ?ys)"
    then obtain j where "j < length ?ys - ?i" "y = ?ys ! (?i + j)"
      by (auto simp: in_set_conv_nth simp del: length_sort)
    then have "?i + j < length ?ys"
      by linarith
    with \<open>y = ?ys ! (?i + j)\<close> have "?i + j < length ?ys" "y = ?ys ! (?i + j)"
      by blast+
    then show "?ys ! ?i \<le> y"
      by (auto intro!: sorted_nth_mono simp del: length_sort)
  qed
  then have "filter (\<lambda>x. median xs \<le> x) (drop ?i ?ys) = drop ?i ?ys"
    by (simp add: median_def)
  then have "length (filter (\<lambda>x. median xs \<le> x) (drop ?i ?ys)) = length xs - ?i"
    by simp
  then have "length xs - ?i \<le> length (filter (\<lambda>x. median xs \<le> x) ?ys)"
    using length_filter_drop_le [of "\<lambda>x. median xs \<le> x" ?i ?ys] by simp
  then have "length xs - ?i \<le> length (filter (\<lambda>x. median xs \<le> x) xs)"
    by (simp only: length_filter_sort)
  moreover have "length xs \<le> 2 * (length xs - ?i)"
    by linarith
  ultimately show ?thesis by linarith
qed

lemma median_history_Inr:
  assumes "median_history h = Inr img" and "i < length (regions h)"
  shows "held (regions h ! i) \<noteq> []"
    and "img ! i = median_pixel (map cvalue (held (regions h ! i)))"
  using assms
  by (auto simp: median_history_def list_ex_iff split: if_splits)

lemma median_history_total:
  "\<forall>r \<in> set (regions h). held r \<noteq> [] \<Longrightarrow>
   median_history h = Inr (map (\<lambda>r. median_pixel (map cvalue (held r))) (regions h))"
  by (simp add: median_history_def list_ex_iff)

lemma median_history_empty:
  "r \<in> set (regions h) \<Longrightarrow> held r = [] \<Longrightarrow> median_history h = Inl EmptyHistory"
  by (auto simp: median_history_def list_ex_iff)


lemma empty_runs:
  assumes "0 < getROIs env (v_height v) (v_width v)"
    and "length (v_frames v) = 0 \<or> length (v_frames v) = 2"
  shows "processing env p v = Inl EmptyHistory"
proof -
  let ?h = "make_history (getROIs env (v_height v) (v_width v)) (nat (sint (sParam p)))"
  have m: "median_history ?h = Inl EmptyHistory"
    using assms(1) by (cases "getROIs env (v_height v) (v_width v)") (simp_all add: median_history_def make_history_def)
  from assms(2) have "\<exists>st. loop env (kernel_size (v_height v) (v_width v) (nParam p)) (visualization p)
             (v_frames v) (initial_state env p v) = Inr st \<and> history st = ?h"
  proof
    assume "length (v_frames v) = 0"
    then show ?thesis by (simp add: loop_end initial_state_def)
  next
    assume "length (v_frames v) = 2"
    then have "v_frames v \<noteq> []" by auto
    with \<open>length (v_frames v) = 2\<close> show ?thesis
      by (simp add: loop_first_frame initial_state_def loop_end show_input_def)
  qed
  with m show ?thesis by (auto simp: processing_def)
qed

text \<open>
  C4: when the aggregation succeeds, every region holds a candidate and its value in the
  image is, channel by channel, the median of the values of the held candidates; the
  median of a list is one of its elements, at least half of the elements are not above
  it and at least half are not below it, and for a list of even length \<open>2k\<close> it is the
  lower of the two middle elements of the sorted list, the one at position \<open>k - 1\<close>.
\<close>

theorem aggregation_is_channelwise_lower_median:
  fixes xs :: "'a::linorder list"
  assumes "median_history h = Inr img" and "i < length (regions h)"
  shows "held (regions h ! i) \<noteq> [] \<and>
         img ! i =
           (median (map (\<lambda>(b, g, r). b) (map cvalue (held (regions h ! i)))),
            median (map (\<lambda>(b, g, r). g) (map cvalue (held (regions h ! i)))),
            median (map (\<lambda>(b, g, r). r) (map cvalue (held (regions h ! i))))) \<and>
         (xs \<noteq> [] \<longrightarrow>
            median xs \<in> set xs \<and>
            length xs \<le> 2 * length (filter (\<lambda>x. x \<le> median xs) xs) \<and>
            length xs \<le> 2 * length (filter (\<lambda>x. median xs \<le> x) xs)) \<and>
         (length xs = 2 * k \<and> 0 < k \<longrightarrow>
            median xs = sort xs ! (k - 1) \<and> sort xs ! (k - 1) \<le> sort xs ! k) \<and>
         (length xs = 2 * k + 1 \<longrightarrow> median xs = sort xs ! k)"
proof -
  have "held (regions h ! i) \<noteq> []"
    by (rule median_history_Inr(1) [OF assms])
  moreover have "img ! i =
           (median (map (\<lambda>(b, g, r). b) (map cvalue (held (regions h ! i)))),
            median (map (\<lambda>(b, g, r). g) (map cvalue (held (regions h ! i)))),
            median (map (\<lambda>(b, g, r). r) (map cvalue (held (regions h ! i)))))"
    using median_history_Inr(2) [OF assms] by (simp only: median_pixel_def)
  moreover have "xs \<noteq> [] \<longrightarrow>
            median xs \<in> set xs \<and>
            length xs \<le> 2 * length (filter (\<lambda>x. x \<le> median xs) xs) \<and>
            length xs \<le> 2 * length (filter (\<lambda>x. median xs \<le> x) xs)"
    using median_in_set [of xs] median_half_below [of xs] median_half_above [of xs] by blast
  moreover have "length xs = 2 * k \<and> 0 < k \<longrightarrow>
            median xs = sort xs ! (k - 1) \<and> sort xs ! (k - 1) \<le> sort xs ! k"
    using median_even [of xs k] by blast
  moreover have "length xs = 2 * k + 1 \<longrightarrow> median xs = sort xs ! k"
    using median_odd [of xs k] by blast
  ultimately show ?thesis
    by blast
qed

theorem aggregation_is_channelwise_lower_median_witness:
  "median_history ten_twenty = Inr [(10, 10, 10)] \<and> (0::nat) < length (regions ten_twenty) \<and>
   [(10, 10, 10)] ! 0 = (median [10, 20 :: 8 word], median [10, 20 :: 8 word], median [10, 20 :: 8 word]) \<and>
   median [10, 20 :: 8 word] = sort [10, 20] ! 0 \<and> sort [10, 20 :: 8 word] ! 0 \<le> sort [10, 20] ! 1"
proof -
  have m: "median_history ten_twenty = Inr [(10, 10, 10)]"
    by (simp add: median_history_def ten_twenty_def median_pixel_def median_def)
  have i: "0 < length (regions ten_twenty)"
    by (simp add: ten_twenty_def)
  show ?thesis
    using m i aggregation_is_channelwise_lower_median [OF m i, of "[10, 20 :: 8 word]" 1]
    by (simp add: ten_twenty_def median_def)
qed

text \<open>
  C5 states that a run over at most one frame, whose regions hold no candidate when the
  final aggregation is requested, fails with \<open>EmptyHistory\<close>. A run over no frame does
  (\<open>empty_runs\<close>). A run over exactly one frame never requests the aggregation: the loop
  advances the iterator twice on the first frame and the run ends in \<open>IteratorPastEnd\<close>,
  whatever the collaborators and the parameters are.
\<close>

theorem one_frame_run_never_aggregates:
  "processing env p \<lparr>v_height = h, v_width = w, v_frames = [f]\<rparr> = Inl IteratorPastEnd"
  by (simp add: processing_def loop_first_frame initial_state_def)

subsection \<open>The history keeps the lowest scores\<close>

lemma expendable_refl: "expendable c c"
  by (simp add: expendable_def)

lemma expendable_trans: "expendable a b \<Longrightarrow> expendable b c \<Longrightarrow> expendable a c"
  by (auto simp: expendable_def)

lemma worse_cases: "worse a b = a \<or> worse a b = b"
  by (simp add: worse_def)

lemma expendable_worse: "expendable (worse a b) a" "expendable (worse a b) b"
  by (auto simp: expendable_def worse_def)

lemma fold_worse:
  "fold (\<lambda>b a. worse a b) cs c \<in> set (c # cs) \<and>
   (\<forall>x \<in> set (c # cs). expendable (fold (\<lambda>b a. worse a b) cs c) x)"
proof (induction cs arbitrary: c)
  case Nil
  show ?case by (simp add: expendable_refl)
next
  case (Cons d cs)
  let ?w = "fold (\<lambda>b a. worse a b) cs (worse c d)"
  from Cons.IH [of "worse c d"]
  have mem: "?w \<in> set (worse c d # cs)"
    and dom: "\<forall>x \<in> set (worse c d # cs). expendable ?w x"
    by blast+
  have "?w \<in> set (c # d # cs)"
    using mem worse_cases [of c d] by auto
  moreover have "expendable ?w (worse c d)"
    using dom by simp
  then have "expendable ?w c" "expendable ?w d"
    using expendable_worse [of c d] expendable_trans by blast+
  ultimately show ?case
    using dom by simp
qed

lemma worst_None: "worst cs = None \<longleftrightarrow> cs = []"
  by (cases cs) simp_all

lemma worst_Some:
  assumes "worst cs = Some w"
  shows "w \<in> set cs"
    and "\<forall>c \<in> set cs. cscore c \<le> cscore w \<and> (cscore c = cscore w \<longrightarrow> corder w \<le> corder c)"
proof -
  obtain c cs' where cs: "cs = c # cs'" and w: "w = fold (\<lambda>b a. worse a b) cs' c"
    using assms by (cases cs) auto
  show "w \<in> set cs"
    using fold_worse [of cs' c] cs w by simp
  have "\<forall>x \<in> set cs. expendable w x"
    using fold_worse [of cs' c] cs w by simp
  then show "\<forall>c \<in> set cs. cscore c \<le> cscore w \<and> (cscore c = cscore w \<longrightarrow> corder w \<le> corder c)"
    by (auto simp: expendable_def)
qed

lemma worst_score_Max:
  assumes "worst cs = Some w"
  shows "cscore w = Max (set (map cscore cs))"
proof -
  have "cscore w \<in> set (map cscore cs)"
    using worst_Some(1) [OF assms] by simp
  moreover have "\<forall>y \<in> set (map cscore cs). y \<le> cscore w"
    using worst_Some(2) [OF assms] by auto
  ultimately show ?thesis
    by (intro Max_eqI [symmetric]) auto
qed

lemma take_insort_take:
  "sorted ys \<Longrightarrow> take n (insort s ys) = take n (insort s (take n ys))"
proof (induction ys arbitrary: n)
  case Nil
  show ?case by simp
next
  case (Cons y ys)
  show ?case
  proof (cases n)
    case 0
    then show ?thesis by simp
  next
    case (Suc m)
    have "sorted ys"
      using Cons.prems by simp
    then have "take m (insort s ys) = take m (insort s (take m ys))"
      by (rule Cons.IH)
    then show ?thesis
      using Suc by (cases m) simp_all
  qed
qed

lemma sort_snoc: "sort (xs @ [x]) = insort x (sort xs)"
  by (rule properties_for_sort) (simp_all add: sorted_insort)

lemma sorted_last_Max:
  assumes "sorted zs" and "zs \<noteq> []"
  shows "last zs = Max (set zs)"
proof -
  have "\<forall>y \<in> set zs. y \<le> last zs"
  proof
    fix y assume "y \<in> set zs"
    then obtain j where "j < length zs" "y = zs ! j"
      by (auto simp: in_set_conv_nth)
    then show "y \<le> last zs"
      using assms by (auto simp: last_conv_nth intro!: sorted_nth_mono)
  qed
  then show ?thesis
    using assms(2) by (intro Max_eqI [symmetric]) auto
qed

lemma mset_take_all_but_last:
  assumes "sorted zs" and "length zs = Suc n"
  shows "mset (take n zs) = mset zs - {#Max (set zs)#}"
proof -
  have ne: "zs \<noteq> []"
    using assms(2) by auto
  have "take n zs = butlast zs"
    using assms(2) by (simp add: butlast_conv_take)
  moreover have "mset zs = mset (butlast zs) + {#last zs#}"
    using ne mset_append [of "butlast zs" "[last zs]"] by simp
  ultimately show ?thesis
    using sorted_last_Max [OF assms(1) ne] by simp
qed

lemma insert_region_held:
  "held (insert_region S v s h) =
     (if length (held h) < S then held h @ [\<lparr>cvalue = v, cscore = s, corder = clock h\<rparr>]
      else case worst (held h) of
             None \<Rightarrow> held h
           | Some w \<Rightarrow>
               if s < cscore w
               then remove1 w (held h) @ [\<lparr>cvalue = v, cscore = s, corder = clock h\<rparr>]
               else held h)"
  by (simp add: insert_region_def Let_def split: option.splits)

lemma insert_region_clock: "clock (insert_region S v s h) = Suc (clock h)"
  by (simp add: insert_region_def Let_def split: option.splits)

lemma mset_scores_remove1:
  assumes "w \<in> set cs"
  shows "mset (map cscore (remove1 w cs)) = mset (map cscore cs) - {#cscore w#}"
proof -
  have "mset cs = add_mset w (mset (remove1 w cs))"
    using assms by simp
  then have "image_mset cscore (mset cs) = add_mset (cscore w) (image_mset cscore (mset (remove1 w cs)))"
    by (metis image_mset_add_mset)
  then show ?thesis
    by simp
qed

lemma scores_step:
  assumes scores: "mset (map cscore (held h)) = mset (take S (sort ss))"
    and cap: "length (held h) \<le> S"
  shows "mset (map cscore (held (insert_region S v s h))) = mset (take S (sort (ss @ [s])))"
proof -
  let ?cs = "held h" and ?ys = "sort ss"
  let ?new = "\<lparr>cvalue = v, cscore = s, corder = clock h\<rparr>"
  have "size (mset (map cscore ?cs)) = size (mset (take S ?ys))"
    by (simp only: scores)
  then have len: "length ?cs = min S (length ss)"
    by (simp add: min.commute)
  show ?thesis
  proof (cases "length ?cs < S")
    case True
    then have short: "length ss < S"
      using len by (simp add: min_def split: if_splits)
    then have "mset (map cscore ?cs) = mset ss"
      using scores by simp
    moreover have "take S (sort (ss @ [s])) = sort (ss @ [s])"
      using short by simp
    ultimately show ?thesis
      using True by (simp add: insert_region_held)
  next
    case False
    then have full: "length ?cs = S"
      using cap by simp
    then have long: "S \<le> length ss"
      using len by (simp add: min_def split: if_splits)
    show ?thesis
    proof (cases "worst ?cs")
      case None
      then have empty: "?cs = []"
        by (simp add: worst_None)
      then have "S = 0"
        using full by simp
      then show ?thesis
        using None empty by (simp add: insert_region_held)
    next
      case (Some w)
      have w_in: "w \<in> set ?cs"
        by (rule worst_Some(1) [OF Some])
      have w_max: "cscore w = Max (set (map cscore ?cs))"
        by (rule worst_score_Max [OF Some])
      let ?zs = "insort s (take S ?ys)"
      have set_eq: "set (take S ?ys) = set (map cscore ?cs)"
        using scores by (metis set_mset_mset)
      have ne: "set (map cscore ?cs) \<noteq> {}"
        using w_in by auto
      have "sorted ?zs"
        by (simp add: sorted_insort sorted_wrt_take)
      moreover have "length ?zs = Suc S"
        using long by simp
      ultimately have "mset (take S ?zs) = mset ?zs - {#Max (set ?zs)#}"
        by (rule mset_take_all_but_last)
      moreover have "Max (set ?zs) = max s (cscore w)"
        using ne by (simp add: set_insort_key set_eq w_max del: set_map)
      moreover have "take S (sort (ss @ [s])) = take S ?zs"
        using take_insort_take [of ?ys S s] by (simp add: sort_snoc)
      ultimately have rhs: "mset (take S (sort (ss @ [s]))) =
          add_mset s (mset (map cscore ?cs)) - {#max s (cscore w)#}"
        using scores by simp
      show ?thesis
      proof (cases "s < cscore w")
        case True
        then have "max s (cscore w) = cscore w"
          by simp
        moreover have "cscore w \<in># mset (map cscore ?cs)"
          using w_in by simp
        ultimately have "mset (take S (sort (ss @ [s]))) =
            add_mset s (mset (map cscore ?cs) - {#cscore w#})"
          using rhs by (simp del: mset_map)
        moreover have "held (insert_region S v s h) = remove1 w ?cs @ [?new]"
          using True False Some by (simp add: insert_region_held)
        then have "mset (map cscore (held (insert_region S v s h))) =
            add_mset s (mset (map cscore (remove1 w ?cs)))"
          by simp
        then have "mset (map cscore (held (insert_region S v s h))) =
            add_mset s (mset (map cscore ?cs) - {#cscore w#})"
          by (simp only: mset_scores_remove1 [OF w_in])
        ultimately show ?thesis
          by (simp only:)
      next
        case ge: False
        then have "max s (cscore w) = s"
          by simp
        then have "mset (take S (sort (ss @ [s]))) = mset (map cscore ?cs)"
          using rhs by simp
        then show ?thesis
          using ge False Some by (simp add: insert_region_held)
      qed
    qed
  qed
qed

lemma length_step:
  "length (held h) \<le> S \<Longrightarrow> length (held (insert_region S v s h)) \<le> S"
  by (auto simp: insert_region_held length_remove1 dest!: worst_Some(1) length_pos_if_in_set
      split: option.splits)

lemma order_step:
  assumes "\<forall>c \<in> set (held h). corder c < clock h" and "distinct (map corder (held h))"
  shows "\<forall>c \<in> set (held (insert_region S v s h)). corder c < clock (insert_region S v s h)"
    and "distinct (map corder (held (insert_region S v s h)))"
proof -
  have sub: "\<And>w. set (remove1 w (held h)) \<subseteq> set (held h)"
    by (rule set_remove1_subset)
  have d: "\<And>w. distinct (map corder (remove1 w (held h)))"
    using assms(2) by (metis distinct_map distinct_remove1 inj_on_subset sub)
  show "\<forall>c \<in> set (held (insert_region S v s h)). corder c < clock (insert_region S v s h)"
    using assms(1) sub
    by (auto simp: insert_region_held insert_region_clock less_Suc_eq split: option.splits)
  show "distinct (map corder (held (insert_region S v s h)))"
    using assms d sub
    by (auto simp: insert_region_held split: option.splits)
qed

lemma insert_history_Inr:
  assumes "insert_history sc fr h = Inr h'"
  shows "capacity h' = capacity h"
    and "length (regions h') = length (regions h)"
    and "length sc = length (regions h)"
    and "length fr = length (regions h)"
    and "i < length (regions h) \<Longrightarrow>
           regions h' ! i = insert_region (capacity h) (fr ! i) (sc ! i) (regions h ! i)"
  using assms by (auto simp: insert_history_def split: if_splits)

lemma insert_all_snoc:
  "insert_all (xs @ [(sc, fr)]) h =
     (case insert_all xs h of Inl e \<Rightarrow> Inl e | Inr h' \<Rightarrow> insert_history sc fr h')"
  by (induction xs h rule: insert_all.induct) (auto split: sum.splits)

lemma insert_all_invariant:
  assumes "insert_all xs (make_history n S) = Inr h"
  shows "capacity h = S \<and> length (regions h) = n \<and>
         (\<forall>i<n. length (held (regions h ! i)) \<le> S \<and>
            mset (map cscore (held (regions h ! i))) =
              mset (take S (sort (map (\<lambda>(sc, fr). sc ! i) xs))) \<and>
            (\<forall>c \<in> set (held (regions h ! i)). corder c < clock (regions h ! i)) \<and>
            distinct (map corder (held (regions h ! i))))"
  using assms
proof (induction xs arbitrary: h rule: rev_induct)
  case Nil
  then show ?case
    by (auto simp: make_history_def)
next
  case (snoc x xs)
  obtain sc fr where x: "x = (sc, fr)"
    by (cases x)
  from snoc.prems obtain h0 where h0: "insert_all xs (make_history n S) = Inr h0"
    and step: "insert_history sc fr h0 = Inr h"
    by (auto simp: x insert_all_snoc split: sum.splits)
  note inv = snoc.IH [OF h0]
  have cap: "capacity h = S" and len: "length (regions h) = n"
    using insert_history_Inr(1,2) [OF step] inv by simp_all
  have "length (held (regions h ! i)) \<le> S \<and>
        mset (map cscore (held (regions h ! i))) =
          mset (take S (sort (map (\<lambda>(sc, fr). sc ! i) (xs @ [x])))) \<and>
        (\<forall>c \<in> set (held (regions h ! i)). corder c < clock (regions h ! i)) \<and>
        distinct (map corder (held (regions h ! i)))" if i: "i < n" for i
  proof -
    let ?r = "regions h0 ! i"
    have r: "regions h ! i = insert_region S (fr ! i) (sc ! i) ?r"
      using insert_history_Inr(5) [OF step, of i] inv i by simp
    have old: "length (held ?r) \<le> S"
      "mset (map cscore (held ?r)) = mset (take S (sort (map (\<lambda>(sc, fr). sc ! i) xs)))"
      "\<forall>c \<in> set (held ?r). corder c < clock ?r"
      "distinct (map corder (held ?r))"
      using inv i by blast+
    show ?thesis
      unfolding r
      using length_step [OF old(1)] scores_step [OF old(2) old(1)] order_step [OF old(3) old(4)]
      by (simp add: x)
  qed
  with cap len show ?case
    by blast
qed

lemma insert_region_full:
  assumes "length (held r) = S"
  shows "((\<forall>c \<in> set (held r). cscore c \<le> s) \<and> held (insert_region S v s r) = held r) \<or>
         (\<exists>w \<in> set (held r). s < cscore w \<and>
            (\<forall>c \<in> set (held r).
               cscore c \<le> cscore w \<and> (cscore c = cscore w \<longrightarrow> corder w \<le> corder c)) \<and>
            held (insert_region S v s r) =
              remove1 w (held r) @ [\<lparr>cvalue = v, cscore = s, corder = clock r\<rparr>])"
proof (cases "worst (held r)")
  case None
  then show ?thesis
    using assms by (simp add: worst_None insert_region_held)
next
  case (Some w)
  note w = worst_Some [OF Some]
  show ?thesis
  proof (cases "s < cscore w")
    case True
    then have "held (insert_region S v s r) =
        remove1 w (held r) @ [\<lparr>cvalue = v, cscore = s, corder = clock r\<rparr>]"
      using assms Some by (simp add: insert_region_held)
    with True w show ?thesis
      by blast
  next
    case False
    then have "held (insert_region S v s r) = held r"
      using assms Some by (simp add: insert_region_held)
    moreover have "\<forall>c \<in> set (held r). cscore c \<le> s"
      using False w(2) by fastforce
    ultimately show ?thesis
      by blast
  qed
qed

text \<open>
  C1: after any run of insertions into a fresh history, every region holds at most \<open>S\<close>
  candidates, with distinct insertion orders, and the multiset of their scores is that of
  the \<open>S\<close> lowest scores offered to the region so far. When a region is full, one more
  insertion either leaves it as it is, the new score being no lower than any held one,
  or the new score is strictly lower than that of a held candidate \<open>w\<close> of maximal score
  and, among those of maximal score, of earliest insertion order, and exactly \<open>w\<close> is
  removed and the new candidate added.
\<close>

theorem history_keeps_lowest_scores:
  assumes "insert_all xs (make_history n S) = Inr h" and "i < n"
  shows "length (held (regions h ! i)) \<le> S \<and>
         mset (map cscore (held (regions h ! i))) =
           mset (take S (sort (map (\<lambda>(sc, fr). sc ! i) xs))) \<and>
         distinct (map corder (held (regions h ! i))) \<and>
         (insert_history sc fr h = Inr h' \<and> length (held (regions h ! i)) = S \<longrightarrow>
            ((\<forall>c \<in> set (held (regions h ! i)). cscore c \<le> sc ! i) \<and>
             held (regions h' ! i) = held (regions h ! i)) \<or>
            (\<exists>w \<in> set (held (regions h ! i)). sc ! i < cscore w \<and>
               (\<forall>c \<in> set (held (regions h ! i)).
                  cscore c \<le> cscore w \<and> (cscore c = cscore w \<longrightarrow> corder w \<le> corder c)) \<and>
               held (regions h' ! i) =
                 remove1 w (held (regions h ! i)) @
                   [\<lparr>cvalue = fr ! i, cscore = sc ! i, corder = clock (regions h ! i)\<rparr>]))"
proof -
  note inv = insert_all_invariant [OF assms(1)]
  have "regions h' ! i = insert_region S (fr ! i) (sc ! i) (regions h ! i)"
    if "insert_history sc fr h = Inr h'"
    using insert_history_Inr(5) [OF that, of i] inv assms(2) by simp
  then show ?thesis
    using inv assms(2) insert_region_full [of "regions h ! i" S "sc ! i" "fr ! i"]
    by (metis (no_types, lifting))
qed

theorem history_keeps_lowest_scores_witness:
  "insert_all single_outlier (make_history 1 3) =
     Inr \<lparr>capacity = 3,
          regions = [\<lparr>held = [\<lparr>cvalue = (50, 50, 50), cscore = 5, corder = 0\<rparr>,
                              \<lparr>cvalue = (10, 10, 10), cscore = 1, corder = 1\<rparr>,
                              \<lparr>cvalue = (11, 11, 11), cscore = 1, corder = 2\<rparr>],
                      clock = 3\<rparr>]\<rparr> \<and>
   insert_history [1] [(12, 12, 12)]
       \<lparr>capacity = 3,
        regions = [\<lparr>held = [\<lparr>cvalue = (50, 50, 50), cscore = 5, corder = 0\<rparr>,
                            \<lparr>cvalue = (10, 10, 10), cscore = 1, corder = 1\<rparr>,
                            \<lparr>cvalue = (11, 11, 11), cscore = 1, corder = 2\<rparr>],
                    clock = 3\<rparr>]\<rparr> =
     Inr \<lparr>capacity = 3,
          regions = [\<lparr>held = [\<lparr>cvalue = (10, 10, 10), cscore = 1, corder = 1\<rparr>,
                              \<lparr>cvalue = (11, 11, 11), cscore = 1, corder = 2\<rparr>,
                              \<lparr>cvalue = (12, 12, 12), cscore = 1, corder = 3\<rparr>],
                      clock = 4\<rparr>]\<rparr> \<and>
   mset (map cscore [\<lparr>cvalue = (50, 50, 50), cscore = 5, corder = 0\<rparr>,
                     \<lparr>cvalue = (10, 10, 10), cscore = 1, corder = 1\<rparr>,
                     \<lparr>cvalue = (11, 11, 11), cscore = 1, corder = 2\<rparr>]) =
     mset (take 3 (sort (map (\<lambda>(sc, fr). sc ! 0) single_outlier)))"
proof -
  let ?h0 = "\<lparr>capacity = 3,
        regions = [\<lparr>held = [\<lparr>cvalue = (50, 50, 50), cscore = 5, corder = 0\<rparr>,
                            \<lparr>cvalue = (10, 10, 10), cscore = 1, corder = 1\<rparr>,
                            \<lparr>cvalue = (11, 11, 11), cscore = 1, corder = 2\<rparr>],
                    clock = 3\<rparr>]\<rparr>"
  let ?h1 = "\<lparr>capacity = 3,
        regions = [\<lparr>held = [\<lparr>cvalue = (10, 10, 10), cscore = 1, corder = 1\<rparr>,
                            \<lparr>cvalue = (11, 11, 11), cscore = 1, corder = 2\<rparr>,
                            \<lparr>cvalue = (12, 12, 12), cscore = 1, corder = 3\<rparr>],
                    clock = 4\<rparr>]\<rparr>"
  have a: "insert_all single_outlier (make_history 1 3) = Inr ?h0"
    by (simp add: single_outlier_def make_history_def insert_history_def insert_region_def)
  have b: "(0::nat) < 1"
    by simp
  have c: "insert_history [1] [(12, 12, 12)] ?h0 = Inr ?h1"
    by (simp add: insert_history_def insert_region_def worse_def)
  from history_keeps_lowest_scores [OF a b]
  have "mset (map cscore (held (regions ?h0 ! 0))) =
      mset (take 3 (sort (map (\<lambda>(sc, fr). sc ! 0) single_outlier)))"
    by blast
  then show ?thesis
    using a c by simp
qed

subsection \<open>The visualization is an observer\<close>

lemma erase_simps [simp]:
  "it (erase st) = it st" "firstFrame (erase st) = firstFrame st"
  "numFrame (erase st) = numFrame st" "fdiff (erase st) = fdiff st"
  "probabilityMap (erase st) = probabilityMap st"
  "filteredProbabilityMap (erase st) = filteredProbabilityMap st"
  "history (erase st) = history st"
  "erase (erase st) = erase st"
  by (simp_all add: erase_def)

lemma erase_update [simp]:
  "erase (st\<lparr>it := i\<rparr>) = (erase st)\<lparr>it := i\<rparr>"
  "erase (st\<lparr>firstFrame := b\<rparr>) = (erase st)\<lparr>firstFrame := b\<rparr>"
  "erase (st\<lparr>numFrame := n\<rparr>) = (erase st)\<lparr>numFrame := n\<rparr>"
  "erase (st\<lparr>fdiff := d\<rparr>) = (erase st)\<lparr>fdiff := d\<rparr>"
  "erase (st\<lparr>probabilityMap := pm\<rparr>) = (erase st)\<lparr>probabilityMap := pm\<rparr>"
  "erase (st\<lparr>filteredProbabilityMap := fm\<rparr>) = (erase st)\<lparr>filteredProbabilityMap := fm\<rparr>"
  "erase (st\<lparr>history := h\<rparr>) = (erase st)\<lparr>history := h\<rparr>"
  "erase (st\<lparr>shown := ws\<rparr>) = erase st"
  "erase (st\<lparr>background := bg\<rparr>) = erase st"
  by (simp_all add: erase_def)

lemma background_subtraction_erase:
  "background_subtraction env f (erase st) = map_sum (\<lambda>e. e) erase (background_subtraction env f st)"
  by (simp add: background_subtraction_def Let_def split: option.splits prod.splits)

lemma show_input_erase: "erase (show_input vis f st) = erase st"
  by (simp add: show_input_def)

lemma show_input_off: "show_input False f st = st"
  by (simp add: show_input_def)

lemma firstFrame_show_input: "firstFrame (show_input vis f st) = firstFrame st"
  by (simp add: show_input_def)

lemma it_show_input: "it (show_input vis f st) = it st"
  by (simp add: show_input_def)

lemma filtering_erase: "filtering env k False (erase st) = erase (filtering env k vis st)"
  by (simp add: filtering_def Let_def split: option.splits)

lemma history_filtering: "history (filtering env k vis st) = history st"
  by (simp add: filtering_def Let_def split: option.splits)

lemma history_show_input: "history (show_input vis f st) = history st"
  by (simp add: show_input_def)

lemma insert_region_nonempty: "0 < S \<Longrightarrow> held (insert_region S v s r) \<noteq> []"
  by (cases "held r") (auto simp: insert_region_held split: option.splits)

lemma median_history_after_insert:
  assumes "insert_history sc fr h = Inr h'" and "0 < capacity h"
  shows "\<exists>bg. median_history h' = Inr bg"
proof -
  have "\<forall>r \<in> set (regions h'). held r \<noteq> []"
    using assms by (auto simp: insert_history_def insert_region_nonempty split: if_splits)
  then show ?thesis
    by (simp add: median_history_def list_ex_iff)
qed

lemma insert_and_preview_erase:
  assumes "0 < capacity (history st)"
  shows "insert_and_preview False f (erase st) = map_sum (\<lambda>e. e) erase (insert_and_preview vis f st)"
proof (cases "insert_history (filteredProbabilityMap st) f (history st)")
  case (Inl e)
  then show ?thesis
    by (simp add: insert_and_preview_def)
next
  case (Inr h)
  obtain bg where "median_history h = Inr bg"
    using median_history_after_insert [OF Inr assms] by blast
  with Inr show ?thesis
    by (simp add: insert_and_preview_def Let_def)
qed

lemma body_erase:
  assumes "0 < capacity (history st)"
  shows "body env k False f (erase st) = map_sum (\<lambda>e. e) erase (body env k vis f st)"
proof (cases "background_subtraction env f (st\<lparr>numFrame := numFrame st + 1\<rparr>)")
  case (Inl e)
  then show ?thesis
    using background_subtraction_erase [of env f "st\<lparr>numFrame := numFrame st + 1\<rparr>"]
    by (simp add: body_def)
next
  case (Inr st1)
  then have e: "background_subtraction env f ((erase st)\<lparr>numFrame := numFrame st + 1\<rparr>) = Inr (erase st1)"
    using background_subtraction_erase [of env f "st\<lparr>numFrame := numFrame st + 1\<rparr>"]
    by simp
  have h: "history st1 = history st"
    using Inr by (auto simp: background_subtraction_def Let_def split: option.splits prod.splits if_splits)
  have "0 < capacity (history (filtering env k vis (show_input vis f st1)))"
    using assms h by (simp add: history_filtering history_show_input)
  then have "insert_and_preview False f (erase (filtering env k vis (show_input vis f st1))) =
      map_sum (\<lambda>e. e) erase (insert_and_preview vis f (filtering env k vis (show_input vis f st1)))"
    by (rule insert_and_preview_erase)
  then show ?thesis
    using Inr e
    by (simp add: body_def Let_def show_input_off firstFrame_show_input show_input_erase
        it_show_input filtering_erase [symmetric])
qed

lemma capacity_body:
  "body env k vis f st = Inr st' \<Longrightarrow> capacity (history st') = capacity (history st)"
  by (auto simp: body_def background_subtraction_def show_input_def filtering_def
      insert_and_preview_def insert_history_def Let_def
      split: sum.splits option.splits prod.splits if_splits)

lemma loop_erase:
  "0 < capacity (history st) \<Longrightarrow>
   loop env k False frames (erase st) = map_sum (\<lambda>e. e) erase (loop env k vis frames st)"
proof (induction env k vis frames st rule: loop.induct)
  case (1 env k vis frames st)
  show ?case
  proof (cases "it st < length frames")
    case False
    then show ?thesis
      by (subst (1 2) loop.simps) simp
  next
    case True
    note b = body_erase [OF "1.prems", of env k "frames ! it st" vis]
    show ?thesis
    proof (cases "body env k vis (frames ! it st) st")
      case (Inl e)
      then show ?thesis
        using True b by (simp add: loop_step)
    next
      case (Inr st')
      show ?thesis
      proof (cases "it st' < length frames")
        case False
        then show ?thesis
          using True b Inr by (simp add: loop_step)
      next
        case next_frame: True
        have "0 < capacity (history (st'\<lparr>it := Suc (it st')\<rparr>))"
          using capacity_body [OF Inr] "1.prems" by simp
        then have "loop env k False frames (erase (st'\<lparr>it := Suc (it st')\<rparr>)) =
            map_sum (\<lambda>e. e) erase (loop env k vis frames (st'\<lparr>it := Suc (it st')\<rparr>))"
          using "1.IH" [OF _ _ Inr next_frame] True by simp
        then show ?thesis
          using True b Inr next_frame by (simp add: loop_step)
      qed
    qed
  qed
qed

lemma extract_parameters_visualization:
  "extract_parameters (opts\<lparr>opt_visualization := b\<rparr>) =
     map_sum (\<lambda>e. e) (\<lambda>p. p\<lparr>visualization := b\<rparr>) (extract_parameters opts)"
  by (simp add: extract_parameters_def read_s_n_def Let_def split: option.splits)

lemma extract_parameters_capacity:
  assumes "extract_parameters opts = Inr p"
  shows "0 < nat (sint (sParam p))"
proof -
  have "sParam p = 19 \<or> \<not> sParam p <s 1"
    using assms
    by (auto simp: extract_parameters_def read_s_n_def Let_def split: option.splits if_splits sum.splits)
  then show ?thesis
    by (auto simp: word_sless_alt)
qed

lemma initial_state_visualization:
  "initial_state env (p\<lparr>visualization := b\<rparr>) v = initial_state env p v"
  "erase (initial_state env p v) = initial_state env p v"
  by (simp_all add: initial_state_def erase_def)

lemma processing_visualization:
  assumes "0 < nat (sint (sParam p))"
  shows "written (processing env (p\<lparr>visualization := b\<rparr>) v) =
         written (processing env (p\<lparr>visualization := False\<rparr>) v)"
proof -
  let ?k = "kernel_size (v_height v) (v_width v) (nParam p)"
  let ?st = "initial_state env p v"
  have "0 < capacity (history ?st)"
    using assms by (simp add: initial_state_def make_history_def)
  then have "loop env ?k False (v_frames v) (erase ?st) =
      map_sum (\<lambda>e. e) erase (loop env ?k b (v_frames v) ?st)"
    by (rule loop_erase)
  then have l: "loop env ?k False (v_frames v) ?st =
      map_sum (\<lambda>e. e) erase (loop env ?k b (v_frames v) ?st)"
    by (simp only: initial_state_visualization)
  show ?thesis
  proof (cases "loop env ?k b (v_frames v) ?st")
    case (Inl e)
    then show ?thesis
      using l by (simp add: processing_def initial_state_visualization)
  next
    case (Inr st)
    then show ?thesis
      using l by (cases "median_history (history st)")
        (simp_all add: processing_def initial_state_visualization)
  qed
qed

text \<open>
  C8: two runs on the same command line, collaborators and frames, one with the
  visualization and one without, end in the same way: the same error, or the same
  background written.
\<close>

theorem visualization_is_an_observer:
  "written (main env (opts\<lparr>opt_visualization := True\<rparr>)) =
   written (main env (opts\<lparr>opt_visualization := False\<rparr>))"
proof (cases "extract_parameters opts")
  case (Inl e)
  then show ?thesis
    by (simp add: main_def extract_parameters_visualization)
next
  case (Inr p)
  note cap = extract_parameters_capacity [OF Inr]
  show ?thesis
  proof (cases "decoder env (sequence p)")
    case None
    then show ?thesis
      using Inr by (simp add: main_def extract_parameters_visualization)
  next
    case (Some v)
    then show ?thesis
      using Inr processing_visualization [OF cap, of env True v]
      by (simp add: main_def extract_parameters_visualization)
  qed
qed

end
